theory Spec2Isabelle
  imports Main
begin

section \<open>Page-break planner (src/hooks/use-editor-height.ts)\<close>

text \<open>
  Pixel heights (\<open>offsetHeight\<close>), cumulative tops, document positions and the page
  height are JavaScript numbers that only ever hold integers here; they are modelled as
  \<open>int\<close>.  The field \<open>top\<close> of the source is called \<open>top_px\<close>, the field \<open>type\<close> is
  called \<open>node_type\<close>.
\<close>

definition PAGE_HEIGHT :: int where
  "PAGE_HEIGHT = 1123"

record NodeHeight =
  node_type :: string
  height :: int
  top_px :: int
  pos :: int

record PageBreakPosition =
  pageNumber :: int
  position :: int
  insertPos :: int
  afterNodeIndex :: int

text \<open>
  The three mutable locals of \<open>calculatePageBreaks\<close>.  The local \<open>pageNumber\<close> is
  called \<open>curPage\<close>, since the name is taken by the field of a break.
\<close>

record planner =
  breaks :: "PageBreakPosition list"
  currentPageEnd :: int
  curPage :: int

text \<open>
  One \<open>breaks.push\<close> followed by \<open>pageNumber++\<close> and \<open>currentPageEnd += pageHeight\<close>;
  the two places of the source that do this differ in the insert position and the index.
\<close>

definition push_break :: "int \<Rightarrow> int \<Rightarrow> int \<Rightarrow> planner \<Rightarrow> planner" where
  "push_break pageHeight ins idx s =
     \<lparr> breaks = breaks s @
         [\<lparr> pageNumber = curPage s, position = currentPageEnd s,
            insertPos = ins, afterNodeIndex = idx \<rparr>],
       currentPageEnd = currentPageEnd s + pageHeight,
       curPage = curPage s + 1 \<rparr>"

text \<open>
  The inner \<open>while (nodeBottom > currentPageEnd)\<close> loop.  It does not terminate when
  the page height is not positive, so it is a partial function: \<open>None\<close> is "never
  returns".
\<close>

partial_function (option) tall_node_loop ::
  "int \<Rightarrow> NodeHeight \<Rightarrow> int \<Rightarrow> planner \<Rightarrow> planner option" where
  "tall_node_loop pageHeight node index s =
     (if top_px node + height node > currentPageEnd s
      then tall_node_loop pageHeight node index
             (push_break pageHeight (pos node + height node) index s)
      else Some s)"

text \<open>The body of the \<open>forEach\<close> callback for one node at one index.\<close>

definition visit_node :: "int \<Rightarrow> NodeHeight \<Rightarrow> int \<Rightarrow> planner \<Rightarrow> planner option" where
  "visit_node pageHeight node index s =
     (if top_px node + height node > currentPageEnd s
      then tall_node_loop pageHeight node index
             (push_break pageHeight (pos node) (index - 1) s)
      else Some s)"

fun forEach_nodes :: "int \<Rightarrow> int \<Rightarrow> NodeHeight list \<Rightarrow> planner \<Rightarrow> planner option" where
  "forEach_nodes pageHeight index [] s = Some s"
| "forEach_nodes pageHeight index (node # rest) s =
     (case visit_node pageHeight node index s of
        None \<Rightarrow> None
      | Some s' \<Rightarrow> forEach_nodes pageHeight (index + 1) rest s')"

definition calculatePageBreaks ::
  "NodeHeight list \<Rightarrow> int \<Rightarrow> PageBreakPosition list option" where
  "calculatePageBreaks nodeHeights pageHeight =
     map_option breaks
       (forEach_nodes pageHeight 0 nodeHeights
          \<lparr> breaks = [], currentPageEnd = pageHeight, curPage = 1 \<rparr>)"


section \<open>The document, as the planner's callers see it\<close>

text \<open>
  The editor's document, its traversal and its commands belong to the rich-text
  framework the repository is built on; their code is not in the repository.  They are
  modelled over the framework's addressing scheme: a document is a flat sequence of
  tokens and a position is an index into it.  The start and the end of a node with
  content are one token each, a leaf node and a character are one token.  A node token
  carries the name of its type and whether the type is a block; of the attributes only
  \<open>pageNumber\<close> is kept, on leaves.
\<close>

datatype token =
    Open string bool
  | Close
  | Chr char
  | Leaf string bool int

record pmnode =
  type_name :: string
  isBlock :: bool
  nodeSize :: nat

datatype error = RangeError

text \<open>Tokens up to and including the \<open>Close\<close> that matches an already read \<open>Open\<close>.\<close>

fun close_len :: "nat \<Rightarrow> token list \<Rightarrow> nat" where
  "close_len d [] = 0"
| "close_len d (Close # ts) = (if d = 0 then 1 else 1 + close_len (d - 1) ts)"
| "close_len d (Open nm b # ts) = 1 + close_len (d + 1) ts"
| "close_len d (t # ts) = 1 + close_len d ts"

fun is_Chr :: "token \<Rightarrow> bool" where
  "is_Chr (Chr c) = True"
| "is_Chr t = False"

text \<open>
  Modelled from the spec: \<open>doc.descendants(f)\<close>, the consumed operation "traverse
  document in order, with position", which yields (node, position) pairs depth-first in
  document order.  The position is the one just before the node; a maximal run of
  characters is one text node.
\<close>

fun descendants_from :: "bool \<Rightarrow> nat \<Rightarrow> token list \<Rightarrow> (pmnode \<times> nat) list" where
  "descendants_from in_text p [] = []"
| "descendants_from in_text p (Open nm b # ts) =
     (\<lparr> type_name = nm, isBlock = b, nodeSize = 1 + close_len 0 ts \<rparr>, p)
       # descendants_from False (p + 1) ts"
| "descendants_from in_text p (Leaf nm b a # ts) =
     (\<lparr> type_name = nm, isBlock = b, nodeSize = 1 \<rparr>, p)
       # descendants_from False (p + 1) ts"
| "descendants_from in_text p (Close # ts) = descendants_from False (p + 1) ts"
| "descendants_from in_text p (Chr c # ts) =
     (if in_text then descendants_from True (p + 1) ts
      else (\<lparr> type_name = ''text'', isBlock = False,
              nodeSize = 1 + length (takeWhile is_Chr ts) \<rparr>, p)
             # descendants_from True (p + 1) ts)"

definition descendants :: "token list \<Rightarrow> (pmnode \<times> nat) list" where
  "descendants d = descendants_from False 0 d"

text \<open>
  Modelled from the spec: \<open>tr.delete(from, to)\<close>, the deletion that "remove all
  marker nodes" is made of.  It acts on the transaction's current document, the one
  the earlier deletions of the same transaction have left, and throws on a range outside
  of it.
\<close>

definition tr_delete :: "nat \<Rightarrow> nat \<Rightarrow> token list \<Rightarrow> error + token list" where
  "tr_delete from to d =
     (if from \<le> to \<and> to \<le> length d then Inr (take from d @ drop to d)
      else Inl RangeError)"

text \<open>
  Modelled from the spec: \<open>insertContentAt(pos, {type: 'pageBreak', attrs: {pageNumber}})\<close>,
  the consumed operation "insert a marker node of the registered type with attribute
  pageNumber at a given position", which fails discoverably on an invalid position.  The
  break manager below takes the insertion command as a parameter, so what is proved of
  it holds for every insertion command; this one serves where a concrete one is needed.
\<close>

definition insertContentAt :: "int \<Rightarrow> int \<Rightarrow> token list \<Rightarrow> error + token list" where
  "insertContentAt at pn d =
     (if 0 \<le> at \<and> at \<le> int (length d)
      then Inr (take (nat at) d @ [Leaf ''pageBreak'' True pn] @ drop (nat at) d)
      else Inl RangeError)"

section \<open>The marker extension (src/components/tiptap-extension/page-break-extension.ts)\<close>

text \<open>The first loop of \<open>removeAllPageBreaks\<close>: position and size of every page break.\<close>

definition find_pageBreaks :: "token list \<Rightarrow> (nat \<times> nat) list" where
  "find_pageBreaks d =
     map (\<lambda>(node, p). (p, nodeSize node))
       (filter (\<lambda>(node, p). type_name node = ''pageBreak'') (descendants d))"

text \<open>The second loop, over the reversed array; a failing \<open>tr.delete\<close> throws.\<close>

fun delete_each :: "(nat \<times> nat) list \<Rightarrow> token list \<Rightarrow> error + token list" where
  "delete_each [] d = Inr d"
| "delete_each ((p, sz) # rest) d =
     (case tr_delete p (p + sz) d of
        Inl e \<Rightarrow> Inl e
      | Inr d' \<Rightarrow> delete_each rest d')"

definition removeAllPageBreaks :: "token list \<Rightarrow> error + token list" where
  "removeAllPageBreaks d = delete_each (rev (find_pageBreaks d)) d"

section \<open>The metrics pass (src/hooks/use-editor-height.ts, useEditorHeight)\<close>

text \<open>
  What \<open>editor.view.nodeDOM(pos)\<close> returns: an element with its \<open>offsetHeight\<close>,
  some other DOM node, or nothing.  The view is a parameter of the pass.
\<close>

datatype dom = HTMLElement int | OtherNode | NoNode

record EditorHeightMetrics =
  contentHeight :: int
  pageCount :: int
  isOverflowing :: bool
  overflowAmount :: int
  nodeHeights :: "NodeHeight list"

text \<open>The \<open>descendants\<close> callback of \<open>updateMetrics\<close>, with \<open>cumulativeHeight\<close> as
  an argument.\<close>

fun measure_nodes :: "(nat \<Rightarrow> dom) \<Rightarrow> int \<Rightarrow> (pmnode \<times> nat) list \<Rightarrow> NodeHeight list" where
  "measure_nodes nodeDOM cumulativeHeight [] = []"
| "measure_nodes nodeDOM cumulativeHeight ((node, p) # rest) =
     (if isBlock node \<and> type_name node \<noteq> ''pageBreak''
      then (case nodeDOM p of
              HTMLElement h \<Rightarrow>
                \<lparr> node_type = type_name node, height = h,
                  top_px = cumulativeHeight, pos = int p \<rparr>
                  # measure_nodes nodeDOM (cumulativeHeight + h) rest
            | OtherNode \<Rightarrow> measure_nodes nodeDOM cumulativeHeight rest
            | NoNode \<Rightarrow> measure_nodes nodeDOM cumulativeHeight rest)
      else measure_nodes nodeDOM cumulativeHeight rest)"

text \<open>\<open>scrollHeight\<close> is the rendered height of the editor's element; \<open>Math.ceil\<close> of
  the quotient is written with integer division.\<close>

definition updateMetrics :: "int \<Rightarrow> (nat \<Rightarrow> dom) \<Rightarrow> token list \<Rightarrow> EditorHeightMetrics" where
  "updateMetrics scrollHeight nodeDOM d =
     \<lparr> contentHeight = scrollHeight,
       pageCount = - ((- scrollHeight) div PAGE_HEIGHT),
       isOverflowing = (scrollHeight > PAGE_HEIGHT),
       overflowAmount = max 0 (scrollHeight - PAGE_HEIGHT),
       nodeHeights = measure_nodes nodeDOM 0 (descendants d) \<rparr>"

section \<open>The break manager (src/hooks/use-page-break-manager.ts)\<close>

text \<open>
  The state the hook works on: the editor's document (\<open>None\<close> for a null editor), the
  ref \<open>lastBreakCountRef\<close>, what \<open>console.error\<close> received, and the editor commands
  issued so far.
\<close>

datatype command = RemoveAllPageBreaks | InsertContentAt int int

record manager =
  editor :: "token list option"
  lastBreakCount :: nat
  console_errors :: "error list"
  issued :: "command list"

type_synonym inserter = "int \<Rightarrow> int \<Rightarrow> token list \<Rightarrow> error + token list"

text \<open>
  \<open>editor?.chain().focus().removeAllPageBreaks().run()\<close> and
  \<open>editor?.chain().insertContentAt(...).run()\<close>: the new state, and the exception when
  one is thrown.
\<close>

definition run_removeAllPageBreaks :: "manager \<Rightarrow> manager \<times> error option" where
  "run_removeAllPageBreaks s =
     (case editor s of
        None \<Rightarrow> (s, None)
      | Some d \<Rightarrow>
          (let s1 = s\<lparr> issued := issued s @ [RemoveAllPageBreaks] \<rparr>
           in case removeAllPageBreaks d of
                Inl e \<Rightarrow> (s1, Some e)
              | Inr d' \<Rightarrow> (s1\<lparr> editor := Some d' \<rparr>, None)))"

definition run_insertContentAt ::
  "inserter \<Rightarrow> PageBreakPosition \<Rightarrow> manager \<Rightarrow> manager \<times> error option" where
  "run_insertContentAt ins breakPoint s =
     (case editor s of
        None \<Rightarrow> (s, None)
      | Some d \<Rightarrow>
          (let s1 = s\<lparr> issued := issued s @
                       [InsertContentAt (insertPos breakPoint) (pageNumber breakPoint)] \<rparr>
           in case ins (insertPos breakPoint) (pageNumber breakPoint) d of
                Inl e \<Rightarrow> (s1, Some e)
              | Inr d' \<Rightarrow> (s1\<lparr> editor := Some d' \<rparr>, None)))"

text \<open>The insertion loop of the debounced pass: each insertion inside \<open>try/catch\<close>.\<close>

definition insert_caught :: "inserter \<Rightarrow> PageBreakPosition \<Rightarrow> manager \<Rightarrow> manager" where
  "insert_caught ins breakPoint s =
     (case run_insertContentAt ins breakPoint s of
        (s1, None) \<Rightarrow> s1
      | (s1, Some e) \<Rightarrow> s1\<lparr> console_errors := console_errors s1 @ [e] \<rparr>)"

fun insert_all_caught :: "inserter \<Rightarrow> PageBreakPosition list \<Rightarrow> manager \<Rightarrow> manager" where
  "insert_all_caught ins [] s = s"
| "insert_all_caught ins (breakPoint # rest) s =
     insert_all_caught ins rest (insert_caught ins breakPoint s)"

text \<open>The insertion loop of \<open>recalculate\<close>: no \<open>try/catch\<close>, an exception leaves the loop.\<close>

fun insert_all_uncaught ::
  "inserter \<Rightarrow> PageBreakPosition list \<Rightarrow> manager \<Rightarrow> manager \<times> error option" where
  "insert_all_uncaught ins [] s = (s, None)"
| "insert_all_uncaught ins (breakPoint # rest) s =
     (case run_insertContentAt ins breakPoint s of
        (s1, Some e) \<Rightarrow> (s1, Some e)
      | (s1, None) \<Rightarrow> insert_all_uncaught ins rest s1)"

text \<open>\<open>currentBreaks\<close> of the timer callback: collected, then never read.\<close>

definition currentBreaks :: "token list \<Rightarrow> nat list" where
  "currentBreaks d =
     map snd (filter (\<lambda>(node, p). type_name node = ''pageBreak'') (descendants d))"

text \<open>
  The timer callback, from the plan it has computed on.  Its \<open>console.log\<close> of the
  update is not kept.
\<close>

definition reconcile ::
  "inserter \<Rightarrow> PageBreakPosition list \<Rightarrow> manager \<Rightarrow> manager \<times> error option" where
  "reconcile ins plan s =
     (if length plan \<noteq> lastBreakCount s
      then (case run_removeAllPageBreaks s of
              (s1, Some e) \<Rightarrow> (s1, Some e)
            | (s1, None) \<Rightarrow>
                ((insert_all_caught ins plan s1)\<lparr> lastBreakCount := length plan \<rparr>, None))
      else (s, None))"

text \<open>
  The effect and its timer callback, the debounce delay left out: nothing is scheduled
  without an editor or with \<open>autoInsert\<close> off.  \<open>None\<close> is a planner that never returns.
\<close>

definition debounced_pass ::
  "bool \<Rightarrow> inserter \<Rightarrow> NodeHeight list \<Rightarrow> manager \<Rightarrow> (manager \<times> error option) option" where
  "debounced_pass autoInsert ins nodes s =
     (if editor s = None \<or> \<not> autoInsert then Some (s, None)
      else map_option (\<lambda>plan. reconcile ins plan s) (calculatePageBreaks nodes PAGE_HEIGHT))"

text \<open>
  \<open>recalculate\<close>, from the plan on, and as a whole.  Clearing the pending timer is an
  effect on time and is left out, like the delay.
\<close>

definition recalculate_plan ::
  "inserter \<Rightarrow> PageBreakPosition list \<Rightarrow> manager \<Rightarrow> manager \<times> error option" where
  "recalculate_plan ins plan s =
     (case run_removeAllPageBreaks s of
        (s1, Some e) \<Rightarrow> (s1, Some e)
      | (s1, None) \<Rightarrow> insert_all_uncaught ins plan s1)"

definition recalculate ::
  "inserter \<Rightarrow> NodeHeight list \<Rightarrow> manager \<Rightarrow> (manager \<times> error option) option" where
  "recalculate ins nodes s =
     map_option (\<lambda>plan. recalculate_plan ins plan s) (calculatePageBreaks nodes PAGE_HEIGHT)"

section \<open>Notions used in the statements and proofs\<close>

text \<open>What a stretch of the planner's run has appended: consecutive page numbers and
  consecutive page ends, starting from the state it began in.\<close>

definition emitted :: "int \<Rightarrow> planner \<Rightarrow> PageBreakPosition list \<Rightarrow> planner \<Rightarrow> bool" where
  "emitted ph s new s' \<longleftrightarrow>
     breaks s' = breaks s @ new \<and>
     curPage s' = curPage s + int (length new) \<and>
     currentPageEnd s' = currentPageEnd s + int (length new) * ph \<and>
     (\<forall>k < length new. pageNumber (new ! k) = curPage s + int k \<and>
                         position (new ! k) = currentPageEnd s + int k * ph)"

text \<open>What holds when the inner loop returns.\<close>

definition loop_post :: "int \<Rightarrow> NodeHeight \<Rightarrow> int \<Rightarrow> planner \<Rightarrow> planner \<Rightarrow> bool" where
  "loop_post ph node idx s s' \<longleftrightarrow>
     (\<exists>new. emitted ph s new s' \<and>
        top_px node + height node \<le> currentPageEnd s' \<and>
        (new \<noteq> [] \<longrightarrow> currentPageEnd s' - ph < top_px node + height node) \<and>
        (\<forall>b \<in> set new. insertPos b = pos node + height node \<and> afterNodeIndex b = idx \<and>
                         position b < top_px node + height node))"

text \<open>What holds when the callback returns for one node.\<close>

definition visit_post :: "int \<Rightarrow> NodeHeight \<Rightarrow> int \<Rightarrow> planner \<Rightarrow> planner \<Rightarrow> bool" where
  "visit_post ph node idx s s' \<longleftrightarrow>
     (\<exists>new. emitted ph s new s' \<and>
        top_px node + height node \<le> currentPageEnd s' \<and>
        (new = [] \<longleftrightarrow> top_px node + height node \<le> currentPageEnd s) \<and>
        (new \<noteq> [] \<longrightarrow> currentPageEnd s' - ph < top_px node + height node \<and>
                      afterNodeIndex (hd new) = idx - 1 \<and> insertPos (hd new) = pos node) \<and>
        (\<forall>b \<in> set new. position b < top_px node + height node \<and>
           (afterNodeIndex b = idx - 1 \<and> insertPos b = pos node \<or>
            afterNodeIndex b = idx \<and> insertPos b = pos node + height node)))"

text \<open>A break that one of the nodes, counted from index \<open>idx\<close>, may have emitted: it lies
  strictly above the node's bottom and carries one of the two insert positions.\<close>

definition attributed :: "NodeHeight list \<Rightarrow> int \<Rightarrow> PageBreakPosition \<Rightarrow> bool" where
  "attributed nodes idx b \<longleftrightarrow>
     (\<exists>i < length nodes.
        position b < top_px (nodes ! i) + height (nodes ! i) \<and>
        (afterNodeIndex b = idx + int i - 1 \<and> insertPos b = pos (nodes ! i) \<or>
         afterNodeIndex b = idx + int i \<and>
           insertPos b = pos (nodes ! i) + height (nodes ! i)))"

text \<open>The data model's invariant on the node list: each top is the sum of the heights
  before it, starting from \<open>t\<close>, and no height is negative.\<close>

fun contiguous :: "int \<Rightarrow> NodeHeight list \<Rightarrow> bool" where
  "contiguous t [] = True"
| "contiguous t (node # rest) =
     (top_px node = t \<and> 0 \<le> height node \<and> contiguous (t + height node) rest)"

text \<open>The content height as the sum of the node heights.\<close>

definition sum_heights :: "NodeHeight list \<Rightarrow> int" where
  "sum_heights nodes = sum_list (map height nodes)"

text \<open>The invariant behind the number of breaks: the page end is the page number times
  the page height, it is the first page end at or past the content seen so far.\<close>

definition count_inv :: "int \<Rightarrow> int \<Rightarrow> planner \<Rightarrow> bool" where
  "count_inv ph t s \<longleftrightarrow>
     1 \<le> curPage s \<and> currentPageEnd s = curPage s * ph \<and> t \<le> currentPageEnd s \<and>
     (curPage s = 1 \<or> currentPageEnd s - ph < t) \<and>
     int (length (breaks s)) = curPage s - 1"

text \<open>A page-break marker: a leaf of type \<open>pageBreak\<close>.\<close>

fun is_marker :: "token \<Rightarrow> bool" where
  "is_marker (Leaf nm b a) = (nm = ''pageBreak'')"
| "is_marker t = False"

text \<open>Position and size of every marker, read off the token sequence.\<close>

fun marker_positions :: "nat \<Rightarrow> token list \<Rightarrow> (nat \<times> nat) list" where
  "marker_positions p [] = []"
| "marker_positions p (t # ts) =
     (if is_marker t then [(p, 1)] else []) @ marker_positions (p + 1) ts"


text \<open>A view in which nothing is laid out yet: no position has a DOM node.\<close>

definition no_layout :: "nat \<Rightarrow> dom" where
  "no_layout p = NoNode"

section \<open>Properties of the planner\<close>

subsection \<open>What a run appends\<close>

lemma emitted_refl: "emitted ph s [] s"
  by (simp add: emitted_def)

lemma emitted_push:
  "emitted ph s [\<lparr> pageNumber = curPage s, position = currentPageEnd s,
                    insertPos = ins, afterNodeIndex = idx \<rparr>] (push_break ph ins idx s)"
  by (simp add: emitted_def push_break_def)

lemma emitted_trans:
  assumes "emitted ph s xs s1" and "emitted ph s1 ys s2"
  shows "emitted ph s (xs @ ys) s2"
proof -
  have "\<forall>k < length (xs @ ys). pageNumber ((xs @ ys) ! k) = curPage s + int k \<and>
                         position ((xs @ ys) ! k) = currentPageEnd s + int k * ph"
  proof (intro allI impI)
    fix k assume k: "k < length (xs @ ys)"
    show "pageNumber ((xs @ ys) ! k) = curPage s + int k \<and>
          position ((xs @ ys) ! k) = currentPageEnd s + int k * ph"
    proof (cases "k < length xs")
      case True
      with assms(1) show ?thesis by (simp add: emitted_def nth_append)
    next
      case False
      then have "k - length xs < length ys" using k by simp
      with assms(2) have "pageNumber (ys ! (k - length xs)) = curPage s1 + int (k - length xs)"
        "position (ys ! (k - length xs)) = currentPageEnd s1 + int (k - length xs) * ph"
        by (simp_all add: emitted_def)
      moreover have "curPage s1 = curPage s + int (length xs)"
        "currentPageEnd s1 = currentPageEnd s + int (length xs) * ph"
        using assms(1) by (simp_all add: emitted_def)
      ultimately show ?thesis using False
        by (simp add: nth_append algebra_simps of_nat_diff)
    qed
  qed
  moreover have "breaks s2 = breaks s @ xs @ ys" using assms by (simp add: emitted_def)
  moreover have "curPage s2 = curPage s + int (length (xs @ ys))"
    using assms by (simp add: emitted_def)
  moreover have "currentPageEnd s2 = currentPageEnd s + int (length (xs @ ys)) * ph"
    using assms by (simp add: emitted_def algebra_simps)
  ultimately show ?thesis unfolding emitted_def by blast
qed

lemma tall_node_loop_total:
  assumes "0 < ph"
  shows "\<exists>s'. tall_node_loop ph node idx s = Some s'"
proof (induction "nat (top_px node + height node - currentPageEnd s)" arbitrary: s rule: less_induct)
  case less
  show ?case
  proof (cases "top_px node + height node > currentPageEnd s")
    case False
    then show ?thesis by (subst tall_node_loop.simps) simp
  next
    case True
    let ?s1 = "push_break ph (pos node + height node) idx s"
    have "nat (top_px node + height node - currentPageEnd ?s1)
            < nat (top_px node + height node - currentPageEnd s)"
      using True assms by (simp add: push_break_def)
    from less[OF this] obtain s' where "tall_node_loop ph node idx ?s1 = Some s'" by blast
    with True show ?thesis by (subst tall_node_loop.simps) simp
  qed
qed

lemma tall_node_loop_post:
  assumes "tall_node_loop ph node idx s = Some s'"
  shows "loop_post ph node idx s s'"
proof (rule tall_node_loop.raw_induct[where P = loop_post, OF _ assms])
  fix loop ph node idx s s'
  assume IH: "\<And>ph node idx s s'. loop ph node idx s = Some s' \<Longrightarrow> loop_post ph node idx s s'"
    and step: "(if top_px node + height node > currentPageEnd s
      then loop ph node idx (push_break ph (pos node + height node) idx s)
      else Some s) = Some s'"
  show "loop_post ph node idx s s'"
  proof (cases "top_px node + height node > currentPageEnd s")
    case False
    with step have "s' = s" by simp
    with False emitted_refl[of ph s] show ?thesis unfolding loop_post_def by fastforce
  next
    case True
    let ?s1 = "push_break ph (pos node + height node) idx s"
    let ?b = "\<lparr> pageNumber = curPage s, position = currentPageEnd s,
            insertPos = pos node + height node, afterNodeIndex = idx \<rparr>"
    from True step have "loop ph node idx ?s1 = Some s'" by simp
    from IH[OF this] obtain new where new:
      "emitted ph ?s1 new s'"
      "top_px node + height node \<le> currentPageEnd s'"
      "new \<noteq> [] \<longrightarrow> currentPageEnd s' - ph < top_px node + height node"
      "\<forall>b \<in> set new. insertPos b = pos node + height node \<and> afterNodeIndex b = idx \<and>
                         position b < top_px node + height node"
      unfolding loop_post_def by blast
    have a: "emitted ph s ([?b] @ new) s'"
      by (rule emitted_trans[OF emitted_push new(1)])
    have d: "currentPageEnd s' - ph < top_px node + height node"
    proof (cases "new = []")
      case True
      with new(1) have "currentPageEnd s' = currentPageEnd s + ph"
        by (simp add: emitted_def push_break_def)
      with \<open>top_px node + height node > currentPageEnd s\<close> show ?thesis by simp
    next
      case False with new(3) show ?thesis by simp
    qed
    have e: "\<forall>b \<in> set ([?b] @ new). insertPos b = pos node + height node \<and> afterNodeIndex b = idx \<and>
                         position b < top_px node + height node"
      using new(4) True by simp
    from a d e new(2) show ?thesis unfolding loop_post_def by blast
  qed
qed

lemma visit_node_post:
  assumes "visit_node ph node idx s = Some s'"
  shows "visit_post ph node idx s s'"
proof (cases "top_px node + height node > currentPageEnd s")
  case False
  with assms have "s' = s" by (simp add: visit_node_def)
  with False emitted_refl[of ph s] show ?thesis unfolding visit_post_def by fastforce
next
  case True
  let ?s1 = "push_break ph (pos node) (idx - 1) s"
  let ?b = "\<lparr> pageNumber = curPage s, position = currentPageEnd s,
            insertPos = pos node, afterNodeIndex = idx - 1 \<rparr>"
  from True assms have "tall_node_loop ph node idx ?s1 = Some s'" by (simp add: visit_node_def)
  from tall_node_loop_post[OF this] obtain new where new:
    "emitted ph ?s1 new s'"
    "top_px node + height node \<le> currentPageEnd s'"
    "new \<noteq> [] \<longrightarrow> currentPageEnd s' - ph < top_px node + height node"
    "\<forall>b \<in> set new. insertPos b = pos node + height node \<and> afterNodeIndex b = idx \<and>
                       position b < top_px node + height node"
    unfolding loop_post_def by blast
  have a: "emitted ph s ([?b] @ new) s'"
    by (rule emitted_trans[OF emitted_push new(1)])
  have d: "currentPageEnd s' - ph < top_px node + height node"
  proof (cases "new = []")
    case True
    with new(1) have "currentPageEnd s' = currentPageEnd s + ph"
      by (simp add: emitted_def push_break_def)
    with \<open>top_px node + height node > currentPageEnd s\<close> show ?thesis by simp
  next
    case False with new(3) show ?thesis by simp
  qed
  have e: "\<forall>b \<in> set ([?b] @ new). position b < top_px node + height node \<and>
           (afterNodeIndex b = idx - 1 \<and> insertPos b = pos node \<or>
            afterNodeIndex b = idx \<and> insertPos b = pos node + height node)"
    using new(4) True by simp
  have f: "[?b] @ new \<noteq> []" "afterNodeIndex (hd ([?b] @ new)) = idx - 1"
    "insertPos (hd ([?b] @ new)) = pos node" by simp_all
  have g: "\<not> top_px node + height node \<le> currentPageEnd s" using True by simp
  from a d e f g new(2) show ?thesis unfolding visit_post_def by blast
qed

lemma attributed_hd:
  assumes "position b < top_px node + height node"
    and "afterNodeIndex b = idx - 1 \<and> insertPos b = pos node \<or>
         afterNodeIndex b = idx \<and> insertPos b = pos node + height node"
  shows "attributed (node # rest) idx b"
  unfolding attributed_def using assms by (intro exI[of _ 0]) simp

lemma attributed_tl:
  assumes "attributed rest (idx + 1) b"
  shows "attributed (node # rest) idx b"
proof -
  from assms obtain i where i: "i < length rest"
    "position b < top_px (rest ! i) + height (rest ! i)"
    "afterNodeIndex b = idx + 1 + int i - 1 \<and> insertPos b = pos (rest ! i) \<or>
     afterNodeIndex b = idx + 1 + int i \<and> insertPos b = pos (rest ! i) + height (rest ! i)"
    unfolding attributed_def by blast
  show ?thesis unfolding attributed_def
    using i by (intro exI[of _ "Suc i"]) (simp add: algebra_simps)
qed

lemma forEach_nodes_post:
  "forEach_nodes ph idx nodes s = Some s' \<Longrightarrow>
   \<exists>new. emitted ph s new s' \<and> (\<forall>b \<in> set new. attributed nodes idx b)"
proof (induction nodes arbitrary: s idx)
  case Nil
  then have "s' = s" by simp
  with emitted_refl[of ph s] show ?case by fastforce
next
  case (Cons node rest)
  from Cons.prems obtain s1 where s1: "visit_node ph node idx s = Some s1"
    "forEach_nodes ph (idx + 1) rest s1 = Some s'"
    by (auto split: option.splits)
  from visit_node_post[OF s1(1)] obtain new1 where n1: "emitted ph s new1 s1"
    "\<forall>b \<in> set new1. position b < top_px node + height node \<and>
           (afterNodeIndex b = idx - 1 \<and> insertPos b = pos node \<or>
            afterNodeIndex b = idx \<and> insertPos b = pos node + height node)"
    unfolding visit_post_def by blast
  from Cons.IH[OF s1(2)] obtain new2 where n2: "emitted ph s1 new2 s'"
    "\<forall>b \<in> set new2. attributed rest (idx + 1) b" by blast
  have "emitted ph s (new1 @ new2) s'" by (rule emitted_trans[OF n1(1) n2(1)])
  moreover have "\<forall>b \<in> set (new1 @ new2). attributed (node # rest) idx b"
    using n1(2) n2(2) by (auto intro: attributed_hd attributed_tl)
  ultimately show ?case by blast
qed

lemma visit_node_total:
  "0 < ph \<Longrightarrow> \<exists>s'. visit_node ph node idx s = Some s'"
  by (simp add: visit_node_def tall_node_loop_total)

lemma forEach_nodes_total:
  "0 < ph \<Longrightarrow> \<exists>s'. forEach_nodes ph idx nodes s = Some s'"
proof (induction nodes arbitrary: s idx)
  case Nil show ?case by simp
next
  case (Cons node rest)
  from visit_node_total[OF Cons.prems] obtain s1 where "visit_node ph node idx s = Some s1" by blast
  with Cons.IH[OF Cons.prems, of "idx + 1" s1] show ?case by simp
qed

lemma calculatePageBreaks_total:
  "0 < ph \<Longrightarrow> \<exists>plan. calculatePageBreaks nodes ph = Some plan"
  using forEach_nodes_total[of ph 0 nodes] by (auto simp: calculatePageBreaks_def)

lemma calculatePageBreaks_emitted:
  assumes "calculatePageBreaks nodes ph = Some plan"
  shows "\<exists>s'. emitted ph \<lparr> breaks = [], currentPageEnd = ph, curPage = 1 \<rparr> plan s' \<and>
          (\<forall>b \<in> set plan. attributed nodes 0 b)"
proof -
  let ?s0 = "\<lparr> breaks = [], currentPageEnd = ph, curPage = 1 \<rparr>"
  from assms obtain s' where s': "forEach_nodes ph 0 nodes ?s0 = Some s'" "plan = breaks s'"
    by (auto simp: calculatePageBreaks_def)
  from forEach_nodes_post[OF s'(1)] obtain new where new: "emitted ph ?s0 new s'"
    "\<forall>b \<in> set new. attributed nodes 0 b" by blast
  from new(1) have "breaks s' = new" by (simp add: emitted_def)
  with s'(2) new show ?thesis by blast
qed

text \<open>
  With a page height that is not positive the inner loop never returns once it is
  entered, and neither does the planner when the first node crosses the first page end.
\<close>

lemma tall_node_loop_diverges:
  assumes "ph \<le> 0" and "top_px node + height node > currentPageEnd s"
  shows "tall_node_loop ph node idx s = None"
proof (rule ccontr)
  assume "tall_node_loop ph node idx s \<noteq> None"
  then obtain s' where "tall_node_loop ph node idx s = Some s'" by blast
  from tall_node_loop_post[OF this] obtain new where new: "emitted ph s new s'"
    "top_px node + height node \<le> currentPageEnd s'"
    unfolding loop_post_def by blast
  from new(1) have "currentPageEnd s' = currentPageEnd s + int (length new) * ph"
    by (simp add: emitted_def)
  moreover have "int (length new) * ph \<le> 0"
    using assms(1) by (simp add: mult_nonneg_nonpos)
  ultimately show False using new(2) assms(2) by simp
qed

lemma calculatePageBreaks_diverges:
  assumes "pageHeight \<le> 0" and "top_px node + height node > pageHeight"
  shows "calculatePageBreaks (node # rest) pageHeight = None"
proof -
  let ?s0 = "\<lparr> breaks = [], currentPageEnd = pageHeight, curPage = 1 \<rparr>"
  have "top_px node + height node > currentPageEnd (push_break pageHeight (pos node) (0 - 1) ?s0)"
    using assms by (simp add: push_break_def)
  from tall_node_loop_diverges[OF assms(1) this]
  have "visit_node pageHeight node 0 ?s0 = None" using assms(2) by (simp add: visit_node_def)
  then show ?thesis by (simp add: calculatePageBreaks_def)
qed

subsection \<open>Breaks and the bottoms of the nodes\<close>

text \<open>
  Claim C1.  A break is emitted at a page boundary only when a node's bottom edge
  (top + height) lies strictly above that boundary: every break of a returned plan
  belongs to a node of the list whose bottom is strictly greater than the break's pixel
  position, and while one node is visited only breaks strictly below its bottom are
  appended, so a bottom that equals a page-height multiple gives no break at that
  multiple.  The planner returns for every positive page height.  For the single node
  of top 0 and height 1123 and page height 1123 the plan is empty.
\<close>

theorem breaks_only_past_boundary:
  "(0 < pageHeight \<longrightarrow> (\<exists>plan. calculatePageBreaks nodes pageHeight = Some plan)) \<and>
   (\<forall>plan. calculatePageBreaks nodes pageHeight = Some plan \<longrightarrow>
      (\<forall>b \<in> set plan. \<exists>i < length nodes.
         position b < top_px (nodes ! i) + height (nodes ! i) \<and>
         (afterNodeIndex b = int i - 1 \<and> insertPos b = pos (nodes ! i) \<or>
          afterNodeIndex b = int i \<and>
            insertPos b = pos (nodes ! i) + height (nodes ! i)))) \<and>
   (\<forall>node index s s'. visit_node pageHeight node index s = Some s' \<longrightarrow>
      (\<exists>new. breaks s' = breaks s @ new \<and>
         (\<forall>b \<in> set new. position b < top_px node + height node))) \<and>
   calculatePageBreaks [\<lparr> node_type = t, height = 1123, top_px = 0, pos = p \<rparr>] 1123 = Some []"
proof (intro conjI allI impI)
  assume "0 < pageHeight"
  then show "\<exists>plan. calculatePageBreaks nodes pageHeight = Some plan"
    by (rule calculatePageBreaks_total)
next
  fix plan assume "calculatePageBreaks nodes pageHeight = Some plan"
  from calculatePageBreaks_emitted[OF this]
  show "\<forall>b \<in> set plan. \<exists>i < length nodes.
         position b < top_px (nodes ! i) + height (nodes ! i) \<and>
         (afterNodeIndex b = int i - 1 \<and> insertPos b = pos (nodes ! i) \<or>
          afterNodeIndex b = int i \<and>
            insertPos b = pos (nodes ! i) + height (nodes ! i))"
    by (simp add: attributed_def)
next
  fix node index s s' assume "visit_node pageHeight node index s = Some s'"
  from visit_node_post[OF this]
  show "\<exists>new. breaks s' = breaks s @ new \<and>
         (\<forall>b \<in> set new. position b < top_px node + height node)"
    unfolding visit_post_def emitted_def by blast
next
  show "calculatePageBreaks [\<lparr> node_type = t, height = 1123, top_px = 0, pos = p \<rparr>] 1123 = Some []"
    by (simp add: calculatePageBreaks_def visit_node_def)
qed

theorem breaks_only_past_boundary_witness:
  "(0::int) < 1123 \<and>
   calculatePageBreaks
     [\<lparr> node_type = ''paragraph'', height = 600, top_px = 0, pos = 0 \<rparr>,
      \<lparr> node_type = ''paragraph'', height = 600, top_px = 600, pos = 5 \<rparr>] 1123
     = Some [\<lparr> pageNumber = 1, position = 1123, insertPos = 5, afterNodeIndex = 0 \<rparr>] \<and>
   (\<exists>i < 2. (1123::int) <
       top_px ([\<lparr> node_type = ''paragraph'', height = 600, top_px = 0, pos = 0 \<rparr>,
                \<lparr> node_type = ''paragraph'', height = 600, top_px = 600, pos = 5 \<rparr>] ! i) +
       height ([\<lparr> node_type = ''paragraph'', height = 600, top_px = 0, pos = 0 \<rparr>,
                \<lparr> node_type = ''paragraph'', height = 600, top_px = 600, pos = 5 \<rparr>] ! i))"
proof -
  let ?nodes = "[\<lparr> node_type = ''paragraph'', height = 600, top_px = 0, pos = 0 \<rparr>,
                 \<lparr> node_type = ''paragraph'', height = 600, top_px = 600, pos = 5 \<rparr>]"
  let ?b = "\<lparr> pageNumber = 1, position = 1123, insertPos = 5, afterNodeIndex = 0 \<rparr>"
  have e: "calculatePageBreaks ?nodes 1123 = Some [?b]"
    by (simp add: calculatePageBreaks_def visit_node_def push_break_def tall_node_loop.simps)
  from breaks_only_past_boundary[of 1123 ?nodes] e
  have "\<forall>b \<in> set [?b]. \<exists>i < length ?nodes.
         position b < top_px (?nodes ! i) + height (?nodes ! i) \<and>
         (afterNodeIndex b = int i - 1 \<and> insertPos b = pos (?nodes ! i) \<or>
          afterNodeIndex b = int i \<and>
            insertPos b = pos (?nodes ! i) + height (?nodes ! i))"
    by blast
  then obtain i where i: "i < length ?nodes"
    "position ?b < top_px (?nodes ! i) + height (?nodes ! i)"
    by auto
  then have "i < 2" "(1123::int) < top_px (?nodes ! i) + height (?nodes ! i)"
    by simp_all
  then have "\<exists>i < 2. (1123::int) < top_px (?nodes ! i) + height (?nodes ! i)"
    by blast
  with e show ?thesis by simp
qed

text \<open>
  Claim C2.  For the single oversized node of top 0, height 3000 and document position
  \<open>p\<close>, with page height 1123, the plan has exactly two breaks: page 1 at pixel 1123
  with insert position \<open>p\<close>, and page 2 at pixel 2246 with insert position \<open>p + 3000\<close>.
\<close>

theorem oversized_node_two_breaks:
  "calculatePageBreaks [\<lparr> node_type = t, height = 3000, top_px = 0, pos = p \<rparr>] 1123 =
     Some [\<lparr> pageNumber = 1, position = 1123, insertPos = p, afterNodeIndex = - 1 \<rparr>,
           \<lparr> pageNumber = 2, position = 2246, insertPos = p + 3000, afterNodeIndex = 0 \<rparr>]"
  by (simp add: calculatePageBreaks_def visit_node_def push_break_def tall_node_loop.simps)

text \<open>
  Claim C10.  When the first node's bottom (top + height) is strictly greater than the
  page height, every returned plan is non-empty and its first break has
  \<open>afterNodeIndex = -1\<close>, which is not an index into the node list; the planner returns
  such a plan for every positive page height.
\<close>

theorem first_break_index_minus_one:
  assumes "nodes = node # rest"
    and "top_px node + height node > pageHeight"
  shows "(0 < pageHeight \<longrightarrow> (\<exists>plan. calculatePageBreaks nodes pageHeight = Some plan)) \<and>
         (\<forall>plan. calculatePageBreaks nodes pageHeight = Some plan \<longrightarrow>
            plan \<noteq> [] \<and> afterNodeIndex (hd plan) = - 1 \<and>
            \<not> (0 \<le> afterNodeIndex (hd plan) \<and>
                afterNodeIndex (hd plan) < int (length nodes)))"
proof (intro conjI allI impI)
  assume "0 < pageHeight"
  then show "\<exists>plan. calculatePageBreaks nodes pageHeight = Some plan"
    by (rule calculatePageBreaks_total)
next
  fix plan assume p: "calculatePageBreaks nodes pageHeight = Some plan"
  let ?s0 = "\<lparr> breaks = [], currentPageEnd = pageHeight, curPage = 1 \<rparr>"
  from p assms(1) obtain s1 s' where s: "visit_node pageHeight node 0 ?s0 = Some s1"
    "forEach_nodes pageHeight 1 rest s1 = Some s'" "plan = breaks s'"
    by (auto simp: calculatePageBreaks_def split: option.splits)
  from visit_node_post[OF s(1)] assms(2) obtain new1 where n1:
    "emitted pageHeight ?s0 new1 s1" "new1 \<noteq> []" "afterNodeIndex (hd new1) = 0 - 1"
    unfolding visit_post_def by auto
  from forEach_nodes_post[OF s(2)] obtain new2 where n2: "emitted pageHeight s1 new2 s'"
    by blast
  from n1(1) n2 s(3) have "plan = new1 @ new2" by (simp add: emitted_def)
  with n1(2,3) have r: "plan \<noteq> []" "afterNodeIndex (hd plan) = - 1" by simp_all
  then show "plan \<noteq> []" "afterNodeIndex (hd plan) = - 1"
    "\<not> (0 \<le> afterNodeIndex (hd plan) \<and>
                afterNodeIndex (hd plan) < int (length nodes))" by simp_all
qed

theorem first_break_index_minus_one_witness:
  "(1123::int) < 0 + 1200 \<and>
   (\<exists>plan. calculatePageBreaks
       [\<lparr> node_type = ''image'', height = 1200, top_px = 0, pos = 0 \<rparr>,
        \<lparr> node_type = ''paragraph'', height = 20, top_px = 1200, pos = 1 \<rparr>] 1123 = Some plan \<and>
      plan \<noteq> [] \<and> afterNodeIndex (hd plan) = - 1)"
proof -
  let ?n = "\<lparr> node_type = ''image'', height = 1200, top_px = 0, pos = 0 \<rparr>"
  let ?r = "[\<lparr> node_type = ''paragraph'', height = 20, top_px = 1200, pos = 1 \<rparr>]"
  have h: "top_px ?n + height ?n > 1123" by simp
  from first_break_index_minus_one[OF refl h, of ?r] show ?thesis by auto
qed

subsection \<open>The number of breaks\<close>

lemma visit_node_count_inv:
  assumes v: "visit_node ph node idx s = Some s'"
    and inv: "count_inv ph (top_px node) s"
    and h: "0 \<le> height node"
  shows "count_inv ph (top_px node + height node) s'"
proof -
  from visit_node_post[OF v] obtain new where new:
    "emitted ph s new s'"
    "top_px node + height node \<le> currentPageEnd s'"
    "new = [] \<longleftrightarrow> top_px node + height node \<le> currentPageEnd s"
    "new \<noteq> [] \<longrightarrow> currentPageEnd s' - ph < top_px node + height node"
    unfolding visit_post_def by blast
  from new(1) have e: "breaks s' = breaks s @ new"
    "curPage s' = curPage s + int (length new)"
    "currentPageEnd s' = currentPageEnd s + int (length new) * ph"
    by (simp_all add: emitted_def)
  from inv have i: "1 \<le> curPage s" "currentPageEnd s = curPage s * ph"
    "curPage s = 1 \<or> currentPageEnd s - ph < top_px node"
    "int (length (breaks s)) = curPage s - 1"
    unfolding count_inv_def by blast+
  have a: "1 \<le> curPage s'" using e(2) i(1) by simp
  have b: "currentPageEnd s' = curPage s' * ph" using e(2,3) i(2) by (simp add: algebra_simps)
  have c: "curPage s' = 1 \<or> currentPageEnd s' - ph < top_px node + height node"
  proof (cases "new = []")
    case True
    with e i(3) h show ?thesis by auto
  next
    case False with new(4) show ?thesis by simp
  qed
  have d: "int (length (breaks s')) = curPage s' - 1" using e(1,2) i(4) by simp
  from a b c d new(2) show ?thesis by (simp add: count_inv_def)
qed

lemma forEach_nodes_count_inv:
  "forEach_nodes ph idx nodes s = Some s' \<Longrightarrow> contiguous t nodes \<Longrightarrow> count_inv ph t s \<Longrightarrow>
   count_inv ph (t + sum_heights nodes) s'"
proof (induction nodes arbitrary: s idx t)
  case Nil
  then show ?case by (simp add: sum_heights_def)
next
  case (Cons node rest)
  from Cons.prems(1) obtain s1 where s1: "visit_node ph node idx s = Some s1"
    "forEach_nodes ph (idx + 1) rest s1 = Some s'"
    by (auto split: option.splits)
  from Cons.prems(2) have c: "top_px node = t" "0 \<le> height node"
    "contiguous (t + height node) rest" by simp_all
  from visit_node_count_inv[OF s1(1)] Cons.prems(3) c
  have "count_inv ph (t + height node) s1" by simp
  from Cons.IH[OF s1(2) c(3) this] show ?case by (simp add: sum_heights_def algebra_simps)
qed

lemma contiguous_nonneg: "contiguous t nodes \<Longrightarrow> 0 \<le> sum_heights nodes"
  by (induction nodes arbitrary: t) (auto simp: sum_heights_def)

lemma crossing_count:
  fixes ph H pn :: int
  assumes "0 < ph" "0 \<le> H" "1 \<le> pn" "H \<le> pn * ph" "pn = 1 \<or> pn * ph - ph < H"
  shows "pn - 1 = (if ph dvd H \<and> 0 < H then H div ph - 1 else H div ph)"
proof (cases "H = pn * ph")
  case True
  with assms show ?thesis by simp
next
  case False
  with assms(4) have lt: "H < pn * ph" by simp
  define r where "r = H - (pn - 1) * ph"
  have H: "H = r + (pn - 1) * ph" by (simp add: r_def)
  have r_ub: "r < ph" using lt by (simp add: r_def algebra_simps)
  show ?thesis
  proof (cases "H = 0")
    case True
    with assms(1) have "H div ph = 0" by simp
    moreover have "pn = 1"
    proof (rule ccontr)
      assume "pn \<noteq> 1"
      with assms(5) have "pn * ph - ph < H" by simp
      moreover have "0 \<le> (pn - 1) * ph" using assms(1,3) by simp
      ultimately show False using True by (simp add: algebra_simps)
    qed
    ultimately show ?thesis using True by simp
  next
    case False
    with assms(2) have "0 < H" by simp
    have r_lb: "0 < r"
    proof (cases "pn = 1")
      case True with \<open>0 < H\<close> show ?thesis by (simp add: r_def)
    next
      case False with assms(5) show ?thesis by (simp add: r_def algebra_simps)
    qed
    have "(r + (pn - 1) * ph) div ph = (pn - 1) + r div ph"
      using assms(1) by simp
    moreover have "r div ph = 0" using r_lb r_ub by simp
    ultimately have "H div ph = pn - 1" using H by simp
    moreover have "\<not> ph dvd H"
    proof
      assume "ph dvd H"
      then have "ph dvd r + (pn - 1) * ph" using H by simp
      then have "ph dvd r" by simp
      with r_lb r_ub show False using zdvd_not_zless by blast
    qed
    ultimately show ?thesis by simp
  qed
qed

lemma contiguous_index:
  "contiguous t nodes \<longleftrightarrow>
     (nodes \<noteq> [] \<longrightarrow> top_px (nodes ! 0) = t) \<and>
     (\<forall>i. Suc i < length nodes \<longrightarrow>
          top_px (nodes ! Suc i) = top_px (nodes ! i) + height (nodes ! i)) \<and>
     (\<forall>i < length nodes. 0 \<le> height (nodes ! i))"
proof (induction nodes arbitrary: t)
  case Nil show ?case by simp
next
  case (Cons node rest)
  show ?case
  proof (cases rest)
    case Nil
    then show ?thesis by simp
  next
    case (Cons n2 rest2)
    have A: "(\<forall>i. Suc i < length (node # rest) \<longrightarrow>
          top_px ((node # rest) ! Suc i) = top_px ((node # rest) ! i) + height ((node # rest) ! i))
        \<longleftrightarrow> top_px (rest ! 0) = top_px node + height node \<and>
          (\<forall>i. Suc i < length rest \<longrightarrow> top_px (rest ! Suc i) = top_px (rest ! i) + height (rest ! i))"
      (is "?L \<longleftrightarrow> ?R")
    proof
      assume L: ?L
      have "top_px (rest ! 0) = top_px node + height node" using L[rule_format, of 0] Cons by simp
      moreover have "\<forall>i. Suc i < length rest \<longrightarrow> top_px (rest ! Suc i) = top_px (rest ! i) + height (rest ! i)"
        using L[rule_format, of "Suc i" for i] by simp
      ultimately show ?R by blast
    next
      assume R: ?R
      show ?L
      proof (intro allI impI)
        fix i assume "Suc i < length (node # rest)"
        then show "top_px ((node # rest) ! Suc i) = top_px ((node # rest) ! i) + height ((node # rest) ! i)"
          using R by (cases i) auto
      qed
    qed
    have B: "(\<forall>i < length (node # rest). 0 \<le> height ((node # rest) ! i)) \<longleftrightarrow>
             0 \<le> height node \<and> (\<forall>i < length rest. 0 \<le> height (rest ! i))"
      by (auto simp: All_less_Suc2 nth_Cons')
    show ?thesis
      unfolding contiguous.simps Cons.IH A B using Cons by auto
  qed
qed

text \<open>
  Claim C3.  For a node list that satisfies the contiguity invariant (the first top is
  0, each further top is the previous top plus the previous height, no height is
  negative) and a positive page height, the planner returns, and the number of breaks is
  the content height (the sum of the heights) divided by the page height and rounded
  down, where a content height that lands exactly on a page boundary does not count as
  crossing it: one less than the quotient when the page height divides a positive
  content height.
\<close>

theorem break_count_contiguous:
  assumes "0 < pageHeight"
    and "nodes \<noteq> [] \<longrightarrow> top_px (nodes ! 0) = 0"
    and "\<forall>i. Suc i < length nodes \<longrightarrow>
           top_px (nodes ! Suc i) = top_px (nodes ! i) + height (nodes ! i)"
    and "\<forall>i < length nodes. 0 \<le> height (nodes ! i)"
  shows "\<exists>plan. calculatePageBreaks nodes pageHeight = Some plan \<and>
           int (length plan) =
             (if pageHeight dvd sum_heights nodes \<and> 0 < sum_heights nodes
              then sum_heights nodes div pageHeight - 1
              else sum_heights nodes div pageHeight)"
proof -
  let ?s0 = "\<lparr> breaks = [], currentPageEnd = pageHeight, curPage = 1 \<rparr>"
  from assms(2-4) have c: "contiguous 0 nodes" by (simp add: contiguous_index)
  from calculatePageBreaks_total[OF assms(1)] obtain plan where
    plan: "calculatePageBreaks nodes pageHeight = Some plan" by blast
  then obtain s' where s': "forEach_nodes pageHeight 0 nodes ?s0 = Some s'" "plan = breaks s'"
    by (auto simp: calculatePageBreaks_def)
  have "count_inv pageHeight 0 ?s0" using assms(1) by (simp add: count_inv_def)
  from forEach_nodes_count_inv[OF s'(1) c this]
  have inv: "count_inv pageHeight (sum_heights nodes) s'" by simp
  then have i: "1 \<le> curPage s'" "currentPageEnd s' = curPage s' * pageHeight"
    "sum_heights nodes \<le> currentPageEnd s'"
    "curPage s' = 1 \<or> currentPageEnd s' - pageHeight < sum_heights nodes"
    "int (length (breaks s')) = curPage s' - 1"
    unfolding count_inv_def by blast+
  have "curPage s' - 1 =
      (if pageHeight dvd sum_heights nodes \<and> 0 < sum_heights nodes
       then sum_heights nodes div pageHeight - 1
       else sum_heights nodes div pageHeight)"
    using i(3,4) unfolding i(2)
    by (intro crossing_count[OF assms(1) contiguous_nonneg[OF c] i(1)])
  with i(5) s'(2) plan show ?thesis by simp
qed

theorem break_count_contiguous_witness:
  "(0::int) < 1123 \<and>
   (\<exists>plan. calculatePageBreaks
       [\<lparr> node_type = ''heading'', height = 1123, top_px = 0, pos = 0 \<rparr>,
        \<lparr> node_type = ''paragraph'', height = 1123, top_px = 1123, pos = 9 \<rparr>] 1123 = Some plan \<and>
      length plan = 1)"
proof -
  let ?nodes = "[\<lparr> node_type = ''heading'', height = 1123, top_px = 0, pos = 0 \<rparr>,
                 \<lparr> node_type = ''paragraph'', height = 1123, top_px = 1123, pos = 9 \<rparr>]"
  have h1: "(0::int) < 1123" by simp
  have h2: "?nodes \<noteq> [] \<longrightarrow> top_px (?nodes ! 0) = 0" by simp
  have h3: "\<forall>i. Suc i < length ?nodes \<longrightarrow>
           top_px (?nodes ! Suc i) = top_px (?nodes ! i) + height (?nodes ! i)"
    by (simp add: less_Suc_eq)
  have h4: "\<forall>i < length ?nodes. 0 \<le> height (?nodes ! i)"
    by (simp add: less_Suc_eq nth_Cons')
  have s: "sum_heights ?nodes = 2246" by (simp add: sum_heights_def)
  from break_count_contiguous[OF h1 h2 h3 h4] show ?thesis
    unfolding s by simp
qed

subsection \<open>The order of a plan\<close>

lemma tall_node_loop_exit:
  "top_px node + height node \<le> currentPageEnd s \<Longrightarrow> tall_node_loop ph node idx s = Some s"
  by (subst tall_node_loop.simps) simp

lemma visit_node_small:
  assumes "top_px node \<le> currentPageEnd s" "height node \<le> ph"
  shows "visit_node ph node idx s =
           Some (if top_px node + height node > currentPageEnd s
                 then push_break ph (pos node) (idx - 1) s else s)"
  using assms by (simp add: visit_node_def tall_node_loop_exit push_break_def)

lemma forEach_nodes_small:
  "contiguous t nodes \<Longrightarrow> \<forall>n \<in> set nodes. height n \<le> ph \<Longrightarrow> t \<le> currentPageEnd s \<Longrightarrow>
   sorted_wrt (<) (map pos nodes) \<Longrightarrow>
   \<exists>s' new. forEach_nodes ph idx nodes s = Some s' \<and> breaks s' = breaks s @ new \<and>
     sorted_wrt (<) (map insertPos new) \<and> insertPos ` set new \<subseteq> pos ` set nodes"
proof (induction nodes arbitrary: t s idx)
  case Nil show ?case by simp
next
  case (Cons node rest)
  let ?s1 = "if top_px node + height node > currentPageEnd s
                 then push_break ph (pos node) (idx - 1) s else s"
  from Cons.prems have c: "top_px node = t" "0 \<le> height node"
    "contiguous (t + height node) rest" "height node \<le> ph" "\<forall>n \<in> set rest. height n \<le> ph"
    "sorted_wrt (<) (map pos rest)" "\<forall>n \<in> set rest. pos node < pos n"
    by auto
  have v: "visit_node ph node idx s = Some ?s1"
    using Cons.prems(3) c(1,4) by (intro visit_node_small) simp_all
  have t1: "t + height node \<le> currentPageEnd ?s1"
    using c(1,4) Cons.prems(3) by (simp add: push_break_def)
  from Cons.IH[OF c(3) c(5) t1 c(6), of "idx + 1"] obtain s' new where n:
    "forEach_nodes ph (idx + 1) rest ?s1 = Some s'" "breaks s' = breaks ?s1 @ new"
    "sorted_wrt (<) (map insertPos new)" "insertPos ` set new \<subseteq> pos ` set rest" by blast
  have r: "forEach_nodes ph idx (node # rest) s = Some s'" using v n(1) by simp
  have gt: "\<forall>b \<in> set new. pos node < insertPos b" using n(4) c(7) by auto
  show ?case
  proof (cases "top_px node + height node > currentPageEnd s")
    case False
    with n(2) have "breaks s' = breaks s @ new" by simp
    with r n(3,4) show ?thesis by auto
  next
    case True
    let ?b = "\<lparr> pageNumber = curPage s, position = currentPageEnd s,
               insertPos = pos node, afterNodeIndex = idx - 1 \<rparr>"
    from True n(2) have "breaks s' = breaks s @ (?b # new)" by (simp add: push_break_def)
    moreover have "sorted_wrt (<) (map insertPos (?b # new))" using n(3) gt by simp
    moreover have "insertPos ` set (?b # new) \<subseteq> pos ` set (node # rest)" using n(4) by auto
    ultimately show ?thesis using r by blast
  qed
qed

lemma emitted_pageNumbers_sorted:
  assumes "emitted ph s new s'"
  shows "sorted_wrt (<) (map pageNumber new)"
  using assms by (simp add: emitted_def sorted_wrt_iff_nth_less)

text \<open>
  Claim C4, as the planner falsifies it.  Two contiguous nodes with increasing document
  positions 0 and 5 and heights 3000 and 1000: the second break of the first node is
  placed at its position plus its pixel height, 3000, and the break before the second
  node at 5.  The insert positions 0, 3000, 5 are not increasing.
\<close>

theorem insertPos_not_increasing:
  "calculatePageBreaks
     [\<lparr> node_type = ''paragraph'', height = 3000, top_px = 0, pos = 0 \<rparr>,
      \<lparr> node_type = ''paragraph'', height = 1000, top_px = 3000, pos = 5 \<rparr>] 1123 =
   Some [\<lparr> pageNumber = 1, position = 1123, insertPos = 0, afterNodeIndex = - 1 \<rparr>,
         \<lparr> pageNumber = 2, position = 2246, insertPos = 3000, afterNodeIndex = 0 \<rparr>,
         \<lparr> pageNumber = 3, position = 3369, insertPos = 5, afterNodeIndex = 0 \<rparr>] \<and>
   (0::int) < 5 \<and> (0::int) \<le> 3000 \<and> (0::int) \<le> 1000 \<and>
   \<not> sorted_wrt (<) (map insertPos
         [\<lparr> pageNumber = 1, position = 1123, insertPos = 0, afterNodeIndex = - 1 \<rparr>,
          \<lparr> pageNumber = 2, position = 2246, insertPos = 3000, afterNodeIndex = 0 \<rparr>,
          \<lparr> pageNumber = 3, position = 3369, insertPos = 5, afterNodeIndex = 0 \<rparr>]) \<and>
   \<not> sorted_wrt (\<le>) (map insertPos
         [\<lparr> pageNumber = 1, position = 1123, insertPos = 0, afterNodeIndex = - 1 \<rparr>,
          \<lparr> pageNumber = 2, position = 2246, insertPos = 3000, afterNodeIndex = 0 \<rparr>,
          \<lparr> pageNumber = 3, position = 3369, insertPos = 5, afterNodeIndex = 0 \<rparr>])"
  by (simp add: calculatePageBreaks_def visit_node_def push_break_def tall_node_loop.simps)

text \<open>
  Claim C4, amended.  For every node list and page height, the page numbers of a
  returned plan are strictly increasing: they are 1, 2, 3, ... in order.  The insert
  positions are strictly increasing when no node takes the oversized-node loop: for a
  node list that is contiguous from top 0 with heights between 0 and the page height
  and strictly increasing document positions, the planner returns and each break's
  insert position is greater than the previous break's.
\<close>

theorem plan_order:
  "(\<forall>plan. calculatePageBreaks nodes pageHeight = Some plan \<longrightarrow>
      sorted_wrt (<) (map pageNumber plan) \<and>
      (\<forall>k < length plan. pageNumber (plan ! k) = int k + 1)) \<and>
   (contiguous 0 nodes \<and> (\<forall>n \<in> set nodes. height n \<le> pageHeight) \<and>
    sorted_wrt (<) (map pos nodes) \<longrightarrow>
      (\<exists>plan. calculatePageBreaks nodes pageHeight = Some plan \<and>
         sorted_wrt (<) (map insertPos plan)))"
proof (intro conjI allI impI)
  fix plan assume p: "calculatePageBreaks nodes pageHeight = Some plan"
  from calculatePageBreaks_emitted[OF p] obtain s' where
    e: "emitted pageHeight \<lparr> breaks = [], currentPageEnd = pageHeight, curPage = 1 \<rparr> plan s'"
    by blast
  then show "sorted_wrt (<) (map pageNumber plan)" by (rule emitted_pageNumbers_sorted)
  fix k assume "k < length plan"
  with e show "pageNumber (plan ! k) = int k + 1" by (simp add: emitted_def)
next
  assume a: "contiguous 0 nodes \<and> (\<forall>n \<in> set nodes. height n \<le> pageHeight) \<and>
    sorted_wrt (<) (map pos nodes)"
  let ?s0 = "\<lparr> breaks = [], currentPageEnd = pageHeight, curPage = 1 \<rparr>"
  show "\<exists>plan. calculatePageBreaks nodes pageHeight = Some plan \<and>
         sorted_wrt (<) (map insertPos plan)"
  proof (cases nodes)
    case Nil
    then show ?thesis by (simp add: calculatePageBreaks_def)
  next
    case (Cons n ns)
    with a have "0 \<le> height n" "height n \<le> pageHeight" by simp_all
    then have "0 \<le> currentPageEnd ?s0" by simp
    from forEach_nodes_small[of 0 nodes pageHeight ?s0 0] a this
    obtain s' new where "forEach_nodes pageHeight 0 nodes ?s0 = Some s'"
      "breaks s' = breaks ?s0 @ new" "sorted_wrt (<) (map insertPos new)" by blast
    then show ?thesis by (simp add: calculatePageBreaks_def)
  qed
qed

theorem plan_order_witness:
  "contiguous 0
     [\<lparr> node_type = ''paragraph'', height = 1000, top_px = 0, pos = 0 \<rparr>,
      \<lparr> node_type = ''paragraph'', height = 1000, top_px = 1000, pos = 10 \<rparr>,
      \<lparr> node_type = ''paragraph'', height = 1000, top_px = 2000, pos = 20 \<rparr>] \<and>
   (\<exists>plan. calculatePageBreaks
       [\<lparr> node_type = ''paragraph'', height = 1000, top_px = 0, pos = 0 \<rparr>,
        \<lparr> node_type = ''paragraph'', height = 1000, top_px = 1000, pos = 10 \<rparr>,
        \<lparr> node_type = ''paragraph'', height = 1000, top_px = 2000, pos = 20 \<rparr>] 1123 = Some plan \<and>
      length plan = 2 \<and>
      sorted_wrt (<) (map insertPos plan) \<and> sorted_wrt (<) (map pageNumber plan))"
proof -
  let ?nodes = "[\<lparr> node_type = ''paragraph'', height = 1000, top_px = 0, pos = 0 \<rparr>,
      \<lparr> node_type = ''paragraph'', height = 1000, top_px = 1000, pos = 10 \<rparr>,
      \<lparr> node_type = ''paragraph'', height = 1000, top_px = 2000, pos = 20 \<rparr>]"
  have c: "contiguous 0 ?nodes" by simp
  have h: "\<forall>n \<in> set ?nodes. height n \<le> 1123" by simp
  have p: "sorted_wrt (<) (map pos ?nodes)" by simp
  from plan_order[of ?nodes 1123] c h p obtain plan where
    plan: "calculatePageBreaks ?nodes 1123 = Some plan" "sorted_wrt (<) (map insertPos plan)"
    by blast
  from plan_order[of ?nodes 1123] plan(1) have "sorted_wrt (<) (map pageNumber plan)"
    by blast
  moreover have "calculatePageBreaks ?nodes 1123 =
      Some [\<lparr> pageNumber = 1, position = 1123, insertPos = 10, afterNodeIndex = 0 \<rparr>,
            \<lparr> pageNumber = 2, position = 2246, insertPos = 20, afterNodeIndex = 1 \<rparr>]"
    by (simp add: calculatePageBreaks_def visit_node_def push_break_def tall_node_loop.simps)
  with plan(1) have "length plan = 2" by auto
  ultimately show ?thesis using c plan by blast
qed

section \<open>Properties of the marker extension\<close>

lemma find_from_markers:
  "\<forall>b. Open ''pageBreak'' b \<notin> set d \<Longrightarrow>
   map (\<lambda>(node, p). (p, nodeSize node))
     (filter (\<lambda>(node, p). type_name node = ''pageBreak'') (descendants_from f p d))
   = marker_positions p d"
proof (induction d arbitrary: f p)
  case Nil show ?case by simp
next
  case (Cons t ts)
  then have IH: "\<And>f p. map (\<lambda>(node, p). (p, nodeSize node))
     (filter (\<lambda>(node, p). type_name node = ''pageBreak'') (descendants_from f p ts))
   = marker_positions p ts" by simp
  show ?case
  proof (cases t)
    case (Open nm b)
    with Cons.prems have "nm \<noteq> ''pageBreak''" by auto
    with Open IH show ?thesis by simp
  next
    case Close with IH show ?thesis by simp
  next
    case (Chr c) with IH show ?thesis by simp
  next
    case (Leaf nm b a) with IH show ?thesis by simp
  qed
qed

lemma find_pageBreaks_markers:
  "\<forall>b. Open ''pageBreak'' b \<notin> set d \<Longrightarrow> find_pageBreaks d = marker_positions 0 d"
  by (simp add: find_pageBreaks_def descendants_def find_from_markers)

lemma marker_positions_append:
  "marker_positions p (xs @ ys) = marker_positions p xs @ marker_positions (p + length xs) ys"
  by (induction xs arbitrary: p) simp_all

lemma marker_positions_filter:
  "marker_positions p (filter (\<lambda>t. \<not> is_marker t) d) = []"
  by (induction d arbitrary: p) simp_all

lemma delete_each_markers:
  "length pre = p \<Longrightarrow>
   delete_each (rev (marker_positions p d)) (pre @ d @ post)
     = Inr (pre @ filter (\<lambda>t. \<not> is_marker t) d @ post)"
proof (induction d arbitrary: post rule: rev_induct)
  case Nil show ?case by simp
next
  case (snoc t ds)
  show ?case
  proof (cases "is_marker t")
    case False
    with snoc.IH[OF snoc.prems, of "t # post"] show ?thesis
      by (simp add: marker_positions_append)
  next
    case True
    have "tr_delete (p + length ds) (p + length ds + 1) (pre @ (ds @ [t]) @ post)
            = Inr (pre @ ds @ post)"
      using snoc.prems by (simp add: tr_delete_def)
    with True snoc.IH[OF snoc.prems, of post] show ?thesis
      by (simp add: marker_positions_append)
  qed
qed

text \<open>
  Claim C6.  In a document whose page breaks are leaves (the extension declares the
  node type without content), \<open>removeAllPageBreaks\<close> collects every page-break node
  with its position and its size 1, deletes them from the last to the first, no deletion
  fails, and the result is the document without its page-break tokens and with
  everything else in place: a second collection finds none.  When there is no page
  break to begin with the document is returned unchanged.
\<close>

theorem removeAllPageBreaks_removes_all:
  assumes "\<forall>b. Open ''pageBreak'' b \<notin> set d"
  shows "find_pageBreaks d = marker_positions 0 d \<and>
         removeAllPageBreaks d = Inr (filter (\<lambda>t. \<not> is_marker t) d) \<and>
         find_pageBreaks (filter (\<lambda>t. \<not> is_marker t) d) = [] \<and>
         (find_pageBreaks d = [] \<longrightarrow> removeAllPageBreaks d = Inr d)"
proof -
  have a: "find_pageBreaks d = marker_positions 0 d"
    by (rule find_pageBreaks_markers[OF assms])
  have b: "removeAllPageBreaks d = Inr (filter (\<lambda>t. \<not> is_marker t) d)"
    using delete_each_markers[of "[]" 0 d "[]"] by (simp add: removeAllPageBreaks_def a)
  have "\<forall>b. Open ''pageBreak'' b \<notin> set (filter (\<lambda>t. \<not> is_marker t) d)"
    using assms by simp
  then have c: "find_pageBreaks (filter (\<lambda>t. \<not> is_marker t) d) = []"
    by (simp add: find_pageBreaks_markers marker_positions_filter)
  have e: "find_pageBreaks d = [] \<longrightarrow> removeAllPageBreaks d = Inr d"
    by (simp add: removeAllPageBreaks_def)
  from a b c e show ?thesis by blast
qed

theorem removeAllPageBreaks_removes_all_witness:
  "find_pageBreaks
     [Open ''paragraph'' True, Chr CHR ''a'', Close, Leaf ''pageBreak'' True 1,
      Open ''paragraph'' True, Close, Leaf ''pageBreak'' True 2, Leaf ''pageBreak'' True 3]
     = [(3, 1), (6, 1), (7, 1)] \<and>
   removeAllPageBreaks
     [Open ''paragraph'' True, Chr CHR ''a'', Close, Leaf ''pageBreak'' True 1,
      Open ''paragraph'' True, Close, Leaf ''pageBreak'' True 2, Leaf ''pageBreak'' True 3]
     = Inr [Open ''paragraph'' True, Chr CHR ''a'', Close, Open ''paragraph'' True, Close] \<and>
   find_pageBreaks
     [Open ''paragraph'' True, Chr CHR ''a'', Close, Open ''paragraph'' True, Close] = []"
proof -
  let ?d = "[Open ''paragraph'' True, Chr CHR ''a'', Close, Leaf ''pageBreak'' True 1,
      Open ''paragraph'' True, Close, Leaf ''pageBreak'' True 2, Leaf ''pageBreak'' True 3]"
  have h: "\<forall>b. Open ''pageBreak'' b \<notin> set ?d" by simp
  from removeAllPageBreaks_removes_all[OF h] show ?thesis by simp
qed

section \<open>Properties of the metrics pass\<close>

lemma measure_nodes_dropped:
  "\<forall>h. nodeDOM p \<noteq> HTMLElement h \<Longrightarrow>
   measure_nodes nodeDOM cum (before @ (node, p) # after)
     = measure_nodes nodeDOM cum (before @ after)"
proof (induction before arbitrary: cum)
  case Nil
  then show ?case by (cases "nodeDOM p") simp_all
next
  case (Cons v vs)
  obtain n q where v: "v = (n, q)" by (cases v)
  from Cons show ?case unfolding v by (cases "nodeDOM q") simp_all
qed

lemma measure_nodes_sources:
  "r \<in> set (measure_nodes nodeDOM cum vs) \<Longrightarrow>
   \<exists>node p. (node, p) \<in> set vs \<and> isBlock node \<and> type_name node \<noteq> ''pageBreak'' \<and>
     nodeDOM p = HTMLElement (height r) \<and> pos r = int p \<and> node_type r = type_name node"
proof (induction vs arbitrary: cum)
  case Nil then show ?case by simp
next
  case (Cons v vs)
  obtain n q where v: "v = (n, q)" by (cases v)
  show ?case
  proof (cases "isBlock n \<and> type_name n \<noteq> ''pageBreak''")
    case False
    with Cons.prems v have "r \<in> set (measure_nodes nodeDOM cum vs)" by auto
    from Cons.IH[OF this] show ?thesis by auto
  next
    case True
    show ?thesis
    proof (cases "nodeDOM q")
      case (HTMLElement h)
      with True Cons.prems v have
        "r = \<lparr> node_type = type_name n, height = h, top_px = cum, pos = int q \<rparr> \<or>
         r \<in> set (measure_nodes nodeDOM (cum + h) vs)" by simp
      then show ?thesis
      proof
        assume "r = \<lparr> node_type = type_name n, height = h, top_px = cum, pos = int q \<rparr>"
        with True HTMLElement v show ?thesis by auto
      next
        assume "r \<in> set (measure_nodes nodeDOM (cum + h) vs)"
        from Cons.IH[OF this] show ?thesis by auto
      qed
    next
      case OtherNode
      with True Cons.prems v have "r \<in> set (measure_nodes nodeDOM cum vs)" by simp
      from Cons.IH[OF this] show ?thesis by auto
    next
      case NoNode
      with True Cons.prems v have "r \<in> set (measure_nodes nodeDOM cum vs)" by simp
      from Cons.IH[OF this] show ?thesis by auto
    qed
  qed
qed

text \<open>
  Claim C8, as the metrics pass falsifies it.  A document of one empty paragraph in a
  view where nothing is laid out: the pass completes, and the list of node heights is
  empty.  The paragraph has no record of height 0; it has no record.
\<close>

theorem unavailable_node_has_no_record:
  "nodeHeights (updateMetrics 0 no_layout [Open ''paragraph'' True, Close]) = [] \<and>
   descendants [Open ''paragraph'' True, Close]
     = [(\<lparr> type_name = ''paragraph'', isBlock = True, nodeSize = 2 \<rparr>, 0)]"
  by (simp add: updateMetrics_def descendants_def no_layout_def)

text \<open>
  Claim C8, amended.  When the rendered element of a node is unavailable during a
  metrics pass (\<open>nodeDOM\<close> gives no element at its position), the pass completes and
  the node is dropped: the list of node heights is the one the pass computes without
  that node, so the records of the other nodes and their tops are as if it had height
  0, and no record of the list carries its position.
\<close>

theorem unavailable_node_dropped:
  assumes "\<forall>h. nodeDOM p \<noteq> HTMLElement h"
  shows "measure_nodes nodeDOM cum (before @ (node, p) # after)
           = measure_nodes nodeDOM cum (before @ after) \<and>
         (\<forall>r \<in> set (measure_nodes nodeDOM cum (before @ (node, p) # after)).
            pos r \<noteq> int p)"
proof
  show "measure_nodes nodeDOM cum (before @ (node, p) # after)
           = measure_nodes nodeDOM cum (before @ after)"
    using assms by (rule measure_nodes_dropped)
next
  show "\<forall>r \<in> set (measure_nodes nodeDOM cum (before @ (node, p) # after)). pos r \<noteq> int p"
  proof
    fix r assume "r \<in> set (measure_nodes nodeDOM cum (before @ (node, p) # after))"
    from measure_nodes_sources[OF this] obtain q where
      "nodeDOM q = HTMLElement (height r)" "pos r = int q" by blast
    with assms show "pos r \<noteq> int p" by auto
  qed
qed

theorem unavailable_node_dropped_witness:
  "(\<forall>h. (no_layout(2 := HTMLElement 20)) 0 \<noteq> HTMLElement h) \<and>
   measure_nodes (no_layout(2 := HTMLElement 20)) 0
     ([] @ (\<lparr> type_name = ''paragraph'', isBlock = True, nodeSize = 2 \<rparr>, 0)
         # [(\<lparr> type_name = ''paragraph'', isBlock = True, nodeSize = 2 \<rparr>, 2)])
     = [\<lparr> node_type = ''paragraph'', height = 20, top_px = 0, pos = 2 \<rparr>]"
proof -
  have h: "\<forall>h. (no_layout(2 := HTMLElement 20)) 0 \<noteq> HTMLElement h"
    by (simp add: no_layout_def)
  from unavailable_node_dropped[of "no_layout(2 := HTMLElement 20)" 0 0 "[]"
      "\<lparr> type_name = ''paragraph'', isBlock = True, nodeSize = 2 \<rparr>"
      "[(\<lparr> type_name = ''paragraph'', isBlock = True, nodeSize = 2 \<rparr>, 2)]", OF h] h
  show ?thesis by simp
qed

section \<open>Properties of the break manager\<close>

lemma run_removeAllPageBreaks_frame:
  "run_removeAllPageBreaks s = (s1, r) \<Longrightarrow>
   lastBreakCount s1 = lastBreakCount s \<and> console_errors s1 = console_errors s \<and>
   (editor s1 = None \<longleftrightarrow> editor s = None) \<and> (r \<noteq> None \<longrightarrow> editor s1 = editor s)"
  by (auto simp: run_removeAllPageBreaks_def Let_def split: option.splits sum.splits)

lemma run_insertContentAt_frame:
  "run_insertContentAt ins b s = (s1, r) \<Longrightarrow>
   lastBreakCount s1 = lastBreakCount s \<and> (editor s1 = None \<longleftrightarrow> editor s = None)"
  by (auto simp: run_insertContentAt_def Let_def split: option.splits sum.splits)

lemma insert_caught_frame:
  "lastBreakCount (insert_caught ins b s) = lastBreakCount s \<and>
   (editor (insert_caught ins b s) = None \<longleftrightarrow> editor s = None)"
proof -
  obtain s1 r where r: "run_insertContentAt ins b s = (s1, r)" by (cases "run_insertContentAt ins b s")
  from run_insertContentAt_frame[OF r] r show ?thesis
    by (cases r) (simp_all add: insert_caught_def)
qed

lemma insert_all_caught_frame:
  "lastBreakCount (insert_all_caught ins plan s) = lastBreakCount s \<and>
   (editor (insert_all_caught ins plan s) = None \<longleftrightarrow> editor s = None)"
  by (induction plan arbitrary: s) (simp_all add: insert_caught_frame)


lemma reconcile_skip:
  "length plan = lastBreakCount s \<Longrightarrow> reconcile ins plan s = (s, None)"
  by (simp add: reconcile_def)

lemma reconcile_done:
  assumes "reconcile ins plan s = (s1, None)"
  shows "lastBreakCount s1 = length plan \<and> (editor s1 = None \<longleftrightarrow> editor s = None)"
proof (cases "length plan = lastBreakCount s")
  case True
  with assms show ?thesis by (simp add: reconcile_def)
next
  case False
  obtain s2 r where r: "run_removeAllPageBreaks s = (s2, r)"
    by (cases "run_removeAllPageBreaks s")
  with False assms have "r = None"
    and s1: "s1 = (insert_all_caught ins plan s2)\<lparr> lastBreakCount := length plan \<rparr>"
    by (cases r; simp add: reconcile_def)+
  with run_removeAllPageBreaks_frame[OF r] insert_all_caught_frame[of ins plan s2]
  show ?thesis by simp
qed

text \<open>
  Claim C5.  One debounced reconciliation pass, as a step on the manager's state for a
  freshly computed plan: when the plan is as long as the last applied count, the step
  returns the state as it was (no command is issued, the document and the count are
  unchanged).  So a pass that has completed, applied again to the same plan with
  nothing changed in between, is a no-op; the same holds for the pass as a whole on the
  same node heights.
\<close>

theorem reconcile_twice_is_noop:
  "(length plan = lastBreakCount s \<longrightarrow> reconcile ins plan s = (s, None)) \<and>
   (\<forall>s1. reconcile ins plan s = (s1, None) \<longrightarrow> reconcile ins plan s1 = (s1, None)) \<and>
   (\<forall>s1. debounced_pass autoInsert ins nodes s = Some (s1, None) \<longrightarrow>
          debounced_pass autoInsert ins nodes s1 = Some (s1, None))"
proof (intro conjI allI impI)
  assume "length plan = lastBreakCount s"
  then show "reconcile ins plan s = (s, None)" by (rule reconcile_skip)
next
  fix s1 assume "reconcile ins plan s = (s1, None)"
  from reconcile_done[OF this] show "reconcile ins plan s1 = (s1, None)"
    by (simp add: reconcile_skip)
next
  fix s1 assume a: "debounced_pass autoInsert ins nodes s = Some (s1, None)"
  show "debounced_pass autoInsert ins nodes s1 = Some (s1, None)"
  proof (cases "editor s = None \<or> \<not> autoInsert")
    case True
    with a have "s1 = s" by (simp add: debounced_pass_def)
    with True show ?thesis by (simp add: debounced_pass_def)
  next
    case False
    with a obtain plan' where p: "calculatePageBreaks nodes PAGE_HEIGHT = Some plan'"
      "reconcile ins plan' s = (s1, None)"
      by (auto simp: debounced_pass_def)
    from reconcile_done[OF p(2)] have "reconcile ins plan' s1 = (s1, None)"
      "editor s1 \<noteq> None" using False by (simp_all add: reconcile_skip)
    with p(1) False show ?thesis by (simp add: debounced_pass_def)
  qed
qed

theorem reconcile_twice_is_noop_witness:
  "reconcile insertContentAt
     [\<lparr> pageNumber = 1, position = 1123, insertPos = 2, afterNodeIndex = 0 \<rparr>]
     \<lparr> editor = Some [Open ''paragraph'' True, Close, Open ''paragraph'' True, Close],
       lastBreakCount = 0, console_errors = [], issued = [] \<rparr>
   = (\<lparr> editor = Some [Open ''paragraph'' True, Close, Leaf ''pageBreak'' True 1,
                       Open ''paragraph'' True, Close],
        lastBreakCount = 1, console_errors = [],
        issued = [RemoveAllPageBreaks, InsertContentAt 2 1] \<rparr>, None) \<and>
   reconcile insertContentAt
     [\<lparr> pageNumber = 1, position = 1123, insertPos = 2, afterNodeIndex = 0 \<rparr>]
     \<lparr> editor = Some [Open ''paragraph'' True, Close, Leaf ''pageBreak'' True 1,
                      Open ''paragraph'' True, Close],
       lastBreakCount = 1, console_errors = [],
       issued = [RemoveAllPageBreaks, InsertContentAt 2 1] \<rparr>
   = (\<lparr> editor = Some [Open ''paragraph'' True, Close, Leaf ''pageBreak'' True 1,
                       Open ''paragraph'' True, Close],
        lastBreakCount = 1, console_errors = [],
        issued = [RemoveAllPageBreaks, InsertContentAt 2 1] \<rparr>, None)"
proof -
  let ?plan = "[\<lparr> pageNumber = 1, position = 1123, insertPos = 2, afterNodeIndex = 0 \<rparr>]"
  let ?s = "\<lparr> editor = Some [Open ''paragraph'' True, Close, Open ''paragraph'' True, Close],
       lastBreakCount = 0, console_errors = [], issued = [] \<rparr>"
  let ?s1 = "\<lparr> editor = Some [Open ''paragraph'' True, Close, Leaf ''pageBreak'' True 1,
                       Open ''paragraph'' True, Close],
        lastBreakCount = 1, console_errors = [],
        issued = [RemoveAllPageBreaks, InsertContentAt 2 1] \<rparr>"
  have first: "reconcile insertContentAt ?plan ?s = (?s1, None)"
    by (simp add: reconcile_def run_removeAllPageBreaks_def removeAllPageBreaks_def
        find_pageBreaks_def descendants_def insert_caught_def run_insertContentAt_def
        insertContentAt_def)
  from reconcile_twice_is_noop[of ?plan ?s insertContentAt] first
  have "reconcile insertContentAt ?plan ?s1 = (?s1, None)" by blast
  with first show ?thesis by simp
qed

text \<open>
  The debounced pass issues one insertion per break of the plan, whatever fails: a
  failure is logged and the loop goes on.
\<close>

lemma insert_caught_issued:
  "editor s \<noteq> None \<Longrightarrow>
   issued (insert_caught ins b s) = issued s @ [InsertContentAt (insertPos b) (pageNumber b)]"
  by (auto simp: insert_caught_def run_insertContentAt_def Let_def
      split: option.splits sum.splits)

lemma insert_all_caught_issues_every_break:
  "editor s \<noteq> None \<Longrightarrow>
   issued (insert_all_caught ins plan s)
     = issued s @ map (\<lambda>b. InsertContentAt (insertPos b) (pageNumber b)) plan"
proof (induction plan arbitrary: s)
  case Nil show ?case by simp
next
  case (Cons b bs)
  from Cons.prems insert_caught_frame[of ins b s]
  have "editor (insert_caught ins b s) \<noteq> None" by simp
  from Cons.IH[OF this] Cons.prems show ?case by (simp add: insert_caught_issued)
qed

text \<open>The debounced pass throws only when the removal of the old markers does.\<close>

lemma reconcile_throws_only_from_removal:
  assumes "reconcile ins plan s = (s1, Some e)"
  shows "run_removeAllPageBreaks s = (s1, Some e)"
proof -
  obtain s2 r where r: "run_removeAllPageBreaks s = (s2, r)"
    by (cases "run_removeAllPageBreaks s")
  with assms show ?thesis
    by (cases r; simp add: reconcile_def split: if_splits)
qed

text \<open>
  Claim C7.  The claim holds on the debounced path and fails on the manual one.  Two
  paragraphs at positions 0 and 5, 3000 and 1000 pixels high, give the plan with insert
  positions 0, 3000 and 5; position 3000 is outside the document.  \<open>recalculate\<close>
  inserts the first marker, throws \<open>RangeError\<close> at the second and never issues the
  third insertion; the debounced pass on the same input logs the error and inserts the
  third marker.
\<close>

theorem recalculate_aborts_on_failed_insertion:
  "recalculate insertContentAt
     [\<lparr> node_type = ''paragraph'', height = 3000, top_px = 0, pos = 0 \<rparr>,
      \<lparr> node_type = ''paragraph'', height = 1000, top_px = 3000, pos = 5 \<rparr>]
     \<lparr> editor = Some [Open ''paragraph'' True, Chr CHR ''a'', Chr CHR ''b'', Chr CHR ''c'',
                      Close, Open ''paragraph'' True, Chr CHR ''d'', Close],
       lastBreakCount = 0, console_errors = [], issued = [] \<rparr>
   = Some (\<lparr> editor = Some [Leaf ''pageBreak'' True 1,
                      Open ''paragraph'' True, Chr CHR ''a'', Chr CHR ''b'', Chr CHR ''c'',
                      Close, Open ''paragraph'' True, Chr CHR ''d'', Close],
             lastBreakCount = 0, console_errors = [],
             issued = [RemoveAllPageBreaks, InsertContentAt 0 1, InsertContentAt 3000 2] \<rparr>,
           Some RangeError) \<and>
   debounced_pass True insertContentAt
     [\<lparr> node_type = ''paragraph'', height = 3000, top_px = 0, pos = 0 \<rparr>,
      \<lparr> node_type = ''paragraph'', height = 1000, top_px = 3000, pos = 5 \<rparr>]
     \<lparr> editor = Some [Open ''paragraph'' True, Chr CHR ''a'', Chr CHR ''b'', Chr CHR ''c'',
                      Close, Open ''paragraph'' True, Chr CHR ''d'', Close],
       lastBreakCount = 0, console_errors = [], issued = [] \<rparr>
   = Some (\<lparr> editor = Some [Leaf ''pageBreak'' True 1,
                      Open ''paragraph'' True, Chr CHR ''a'', Chr CHR ''b'', Chr CHR ''c'',
                      Leaf ''pageBreak'' True 3,
                      Close, Open ''paragraph'' True, Chr CHR ''d'', Close],
             lastBreakCount = 3, console_errors = [RangeError],
             issued = [RemoveAllPageBreaks, InsertContentAt 0 1, InsertContentAt 3000 2,
                       InsertContentAt 5 3] \<rparr>,
           None)"
proof -
  let ?nodes = "[\<lparr> node_type = ''paragraph'', height = 3000, top_px = 0, pos = 0 \<rparr>,
      \<lparr> node_type = ''paragraph'', height = 1000, top_px = 3000, pos = 5 \<rparr>]"
  have plan: "calculatePageBreaks ?nodes PAGE_HEIGHT =
     Some [\<lparr> pageNumber = 1, position = 1123, insertPos = 0, afterNodeIndex = - 1 \<rparr>,
           \<lparr> pageNumber = 2, position = 2246, insertPos = 3000, afterNodeIndex = 0 \<rparr>,
           \<lparr> pageNumber = 3, position = 3369, insertPos = 5, afterNodeIndex = 0 \<rparr>]"
    by (simp add: PAGE_HEIGHT_def calculatePageBreaks_def visit_node_def push_break_def
        tall_node_loop.simps)
  show ?thesis
    unfolding recalculate_def debounced_pass_def plan
    by (simp add: recalculate_plan_def reconcile_def run_removeAllPageBreaks_def
        removeAllPageBreaks_def find_pageBreaks_def descendants_def insert_caught_def
        run_insertContentAt_def insertContentAt_def)
qed












end
